theory Spec2Isabelle
  imports Main
begin

section \<open>ColangTranslator: the tokenize-and-rewrite core of \<open>main.py\<close>\<close>

text \<open>
  The development embeds \<^verbatim>\<open>translate_to_conlang(text, translation_dict)\<close> of
  \<^verbatim>\<open>src/main.py\<close> (lines 82 to 138). Python strings are modelled as lists of
  characters, the dictionary as a map from strings to strings, an uncaught
  \<^verbatim>\<open>IndexError\<close> as the left summand of the result, and the \<^verbatim>\<open>while\<close> loop as a
  recursive function over the cursor that returns \<open>None\<close> if it never leaves the loop.

  The program is given twice. First it is written out over the ASCII tables, on HOL
  strings, so that it can be evaluated: there \<^verbatim>\<open>\w\<close>, \<^verbatim>\<open>\s\<close>, \<^verbatim>\<open>str.isupper\<close>,
  \<^verbatim>\<open>str.upper\<close> and \<^verbatim>\<open>str.lower\<close> are those of Python 3 on the code points 0 to 127,
  and the text is ASCII. Then it is given over an arbitrary alphabet with the character
  classes and the string methods as parameters, which covers Python's Unicode tables;
  the first is the instance of the second at the ASCII tables (\<open>translate_ascii\<close>).
\<close>

subsection \<open>The ASCII tables\<close>

definition ascii_lowercase :: string where
  "ascii_lowercase = ''abcdefghijklmnopqrstuvwxyz''"

definition ascii_uppercase :: string where
  "ascii_uppercase = ''ABCDEFGHIJKLMNOPQRSTUVWXYZ''"

definition digits :: string where
  "digits = ''0123456789''"

text \<open>\<^verbatim>\<open>\w\<close> on ASCII: letters, digits and the underscore.\<close>

definition is_word_char :: "char \<Rightarrow> bool" where
  "is_word_char c = (c \<in> set (ascii_lowercase @ ascii_uppercase @ digits @ ''_''))"

text \<open>
  \<^verbatim>\<open>\s\<close> on ASCII, for a \<^verbatim>\<open>str\<close> pattern: tab, line feed, vertical tab, form feed,
  carriage return, the four separators 0x1C to 0x1F, and the space.
\<close>

definition is_space_char :: "char \<Rightarrow> bool" where
  "is_space_char c =
     (c \<in> set [CHR 0x09, CHR 0x0A, CHR 0x0B, CHR 0x0C, CHR 0x0D,
                CHR 0x1C, CHR 0x1D, CHR 0x1E, CHR 0x1F, CHR '' ''])"

definition char_isupper :: "char \<Rightarrow> bool" where
  "char_isupper c = (c \<in> set ascii_uppercase)"

definition char_islower :: "char \<Rightarrow> bool" where
  "char_islower c = (c \<in> set ascii_lowercase)"

definition char_upper :: "char \<Rightarrow> char" where
  "char_upper c =
     (case map_of (zip ascii_lowercase ascii_uppercase) c of Some u \<Rightarrow> u | None \<Rightarrow> c)"

definition char_lower :: "char \<Rightarrow> char" where
  "char_lower c =
     (case map_of (zip ascii_uppercase ascii_lowercase) c of Some l \<Rightarrow> l | None \<Rightarrow> c)"

subsection \<open>String methods\<close>

text \<open>\<^verbatim>\<open>str.upper()\<close> and \<^verbatim>\<open>str.lower()\<close>.\<close>

definition upper :: "string \<Rightarrow> string" where
  "upper s = map char_upper s"

definition lower :: "string \<Rightarrow> string" where
  "lower s = map char_lower s"

text \<open>
  \<^verbatim>\<open>str.isupper()\<close>: there is at least one cased character and no cased character is
  lowercase.
\<close>

definition isupper :: "string \<Rightarrow> bool" where
  "isupper s = (list_ex char_isupper s \<and> \<not> list_ex char_islower s)"

subsection \<open>Tokenizer, over the ASCII classes\<close>

type_synonym token = string

text \<open>
  \<^verbatim>\<open>re.findall(r'\w+|[^\w\s]|\s+', text, re.UNICODE)\<close> (line 89). At each position the
  alternatives are tried in order: a greedy run of word characters, else one character
  that is neither a word character nor whitespace, else a greedy run of whitespace.
  Every character falls under one of the three, so no position is skipped.
\<close>

function tokenize :: "string \<Rightarrow> token list" where
  "tokenize [] = []"
| "tokenize (c # cs) =
     (if is_word_char c then
        (c # takeWhile is_word_char cs) # tokenize (dropWhile is_word_char cs)
      else if \<not> is_space_char c then
        [c] # tokenize cs
      else
        (c # takeWhile is_space_char cs) # tokenize (dropWhile is_space_char cs))"
  by pat_completeness auto
termination
  by (relation "measure length") (auto simp: length_dropWhile_le less_Suc_eq_le)

subsection \<open>Rewriter, over the ASCII tables\<close>

type_synonym dict = "string \<rightharpoonup> string"

datatype error = IndexError

text \<open>\<^verbatim>\<open>re.match(r'\w+', token)\<close> (line 96): the token starts with a word character.\<close>

definition re_match_word :: "token \<Rightarrow> bool" where
  "re_match_word token = (case token of [] \<Rightarrow> False | c # _ \<Rightarrow> is_word_char c)"

text \<open>
  Lines 125 to 130, the case-preservation step. \<^verbatim>\<open>token[0]\<close> and \<^verbatim>\<open>translated[0]\<close>
  raise \<^verbatim>\<open>IndexError\<close> on an empty string; the third branch replaces the translation by
  its first character alone.
\<close>

definition preserve_case :: "token \<Rightarrow> string \<Rightarrow> error + string" where
  "preserve_case token translated =
     (if isupper token then Inr (upper translated)
      else
        (case token of
           [] \<Rightarrow> Inl IndexError
         | t0 # _ \<Rightarrow>
             if char_isupper t0 \<and> length token > 1 then
               (case translated of
                  [] \<Rightarrow> Inl IndexError
                | r0 # rs \<Rightarrow> Inr (upper [r0] @ lower rs))
             else if char_isupper t0 then
               (case translated of
                  [] \<Rightarrow> Inl IndexError
                | r0 # _ \<Rightarrow> Inr (upper [r0]))
             else Inr translated))"

text \<open>
  Lines 99 to 122: the replacement chosen at a word token and the new cursor.
\<close>

definition lookup_word :: "dict \<Rightarrow> token list \<Rightarrow> nat \<Rightarrow> string \<times> nat" where
  "lookup_word d tokens i =
     (let token = tokens ! i in
      if i + 2 < length tokens \<and> lower (tokens ! (i + 1)) = ''all'' then
        (let phrase = lower token @ '' all'' in
         case d phrase of
           Some v \<Rightarrow> (v, i + 2)
         | None \<Rightarrow> (token, i + 1))
      else if i + 2 < length tokens \<and> tokens ! (i + 1) = ''-''
              \<and> lower (tokens ! (i + 2)) = ''bye'' then
        (let phrase = ''good-bye'' in
         case d phrase of
           Some v \<Rightarrow> (v, i + 3)
         | None \<Rightarrow> (token, i + 1))
      else
        (let word_lower = lower token in
         case d word_lower of
           Some v \<Rightarrow> (v, i + 1)
         | None \<Rightarrow> (token, i + 1)))"

text \<open>
  One iteration of the loop (lines 94 to 136) at cursor \<open>i < length tokens\<close>: the token
  appended to \<^verbatim>\<open>translated_tokens\<close> and the new cursor, or the exception raised.
\<close>

definition rewrite_step :: "dict \<Rightarrow> token list \<Rightarrow> nat \<Rightarrow> error + (string \<times> nat)" where
  "rewrite_step d tokens i =
     (let token = tokens ! i in
      if re_match_word token then
        (case lookup_word d tokens i of
           (translated, j) \<Rightarrow>
             (case preserve_case token translated of
                Inl e \<Rightarrow> Inl e
              | Inr translated' \<Rightarrow> Inr (translated', j)))
      else Inr (token, i + 1))"

text \<open>
  The loop \<^verbatim>\<open>while i < len(tokens)\<close> (lines 92 to 136). \<open>None\<close> stands for a loop that
  never exits.
\<close>

partial_function (option) rewrite_loop ::
  "dict \<Rightarrow> token list \<Rightarrow> nat \<Rightarrow> string list \<Rightarrow> (error + string list) option" where
  "rewrite_loop d tokens i translated_tokens =
     (if i < length tokens then
        (case rewrite_step d tokens i of
           Inl e \<Rightarrow> Some (Inl e)
         | Inr (translated, j) \<Rightarrow> rewrite_loop d tokens j (translated_tokens @ [translated]))
      else Some (Inr translated_tokens))"

definition translate_to_conlang :: "string \<Rightarrow> dict \<Rightarrow> (error + string) option" where
  "translate_to_conlang text translation_dict =
     (case rewrite_loop translation_dict (tokenize text) 0 [] of
        None \<Rightarrow> None
      | Some (Inl e) \<Rightarrow> Some (Inl e)
      | Some (Inr translated_tokens) \<Rightarrow> Some (Inr (concat translated_tokens)))"

subsection \<open>The same program over arbitrary character tables\<close>

text \<open>
  What \<^verbatim>\<open>translate_to_conlang\<close> takes from the Python runtime, as a parameter: the
  classes \<^verbatim>\<open>\w\<close> and \<^verbatim>\<open>\s\<close> of \<^verbatim>\<open>re\<close>, the methods \<^verbatim>\<open>str.lower\<close>, \<^verbatim>\<open>str.upper\<close>
  and \<^verbatim>\<open>str.isupper\<close> (on strings, since Python's case mapping may change the length of
  a string and depends on context), and the code points of the ASCII characters of which
  the program's literals are made. The alphabet \<open>'c\<close> is any type of code points; Python's
  Unicode tables are one value of the record, the ASCII tables above another.
\<close>

record 'c tables =
  re_word :: "'c \<Rightarrow> bool"
  re_space :: "'c \<Rightarrow> bool"
  str_lower :: "'c list \<Rightarrow> 'c list"
  str_upper :: "'c list \<Rightarrow> 'c list"
  str_isupper :: "'c list \<Rightarrow> bool"
  code_point :: "char \<Rightarrow> 'c"

definition ascii_tables :: "char tables" where
  "ascii_tables =
     \<lparr>re_word = is_word_char, re_space = is_space_char, str_lower = lower,
      str_upper = upper, str_isupper = isupper, code_point = (\<lambda>c. c)\<rparr>"

text \<open>A string literal of the program, such as \<^verbatim>\<open>"all"\<close>.\<close>

definition lit :: "'c tables \<Rightarrow> string \<Rightarrow> 'c list" where
  "lit T s = map (code_point T) s"

text \<open>
  Line 89, with the classes \<open>w\<close> for \<^verbatim>\<open>\w\<close> and \<open>s\<close> for \<^verbatim>\<open>\s\<close>. The three
  alternatives are tried in the order of the pattern, so nothing is assumed about the
  two classes, not even that they are disjoint.
\<close>

function tokenize_with :: "('c \<Rightarrow> bool) \<Rightarrow> ('c \<Rightarrow> bool) \<Rightarrow> 'c list \<Rightarrow> 'c list list" where
  "tokenize_with w s [] = []"
| "tokenize_with w s (c # cs) =
     (if w c then
        (c # takeWhile w cs) # tokenize_with w s (dropWhile w cs)
      else if \<not> s c then
        [c] # tokenize_with w s cs
      else
        (c # takeWhile s cs) # tokenize_with w s (dropWhile s cs))"
  by pat_completeness auto
termination
  by (relation "measure (\<lambda>(w, s, cs). length cs)")
     (auto simp: length_dropWhile_le less_Suc_eq_le)

text \<open>The token starts with a character of the class \<open>p\<close>.\<close>

definition starts_with :: "('c \<Rightarrow> bool) \<Rightarrow> 'c list \<Rightarrow> bool" where
  "starts_with p token = (case token of [] \<Rightarrow> False | c # _ \<Rightarrow> p c)"

text \<open>Line 96.\<close>

definition re_match_word_with :: "'c tables \<Rightarrow> 'c list \<Rightarrow> bool" where
  "re_match_word_with T token = starts_with (re_word T) token"

text \<open>
  Lines 125 to 130. \<^verbatim>\<open>token[0].isupper()\<close> and \<^verbatim>\<open>translated[0].upper()\<close> are the string
  methods on a string of one character.
\<close>

definition preserve_case_with :: "'c tables \<Rightarrow> 'c list \<Rightarrow> 'c list \<Rightarrow> error + 'c list" where
  "preserve_case_with T token translated =
     (if str_isupper T token then Inr (str_upper T translated)
      else
        (case token of
           [] \<Rightarrow> Inl IndexError
         | t0 # _ \<Rightarrow>
             if str_isupper T [t0] \<and> length token > 1 then
               (case translated of
                  [] \<Rightarrow> Inl IndexError
                | r0 # rs \<Rightarrow> Inr (str_upper T [r0] @ str_lower T rs))
             else if str_isupper T [t0] then
               (case translated of
                  [] \<Rightarrow> Inl IndexError
                | r0 # _ \<Rightarrow> Inr (str_upper T [r0]))
             else Inr translated))"

type_synonym 'c udict = "'c list \<rightharpoonup> 'c list"

text \<open>Lines 99 to 122.\<close>

definition lookup_word_with ::
  "'c tables \<Rightarrow> 'c udict \<Rightarrow> 'c list list \<Rightarrow> nat \<Rightarrow> 'c list \<times> nat" where
  "lookup_word_with T d tokens i =
     (let token = tokens ! i in
      if i + 2 < length tokens \<and> str_lower T (tokens ! (i + 1)) = lit T ''all'' then
        (let phrase = str_lower T token @ lit T '' all'' in
         case d phrase of
           Some v \<Rightarrow> (v, i + 2)
         | None \<Rightarrow> (token, i + 1))
      else if i + 2 < length tokens \<and> tokens ! (i + 1) = lit T ''-''
              \<and> str_lower T (tokens ! (i + 2)) = lit T ''bye'' then
        (let phrase = lit T ''good-bye'' in
         case d phrase of
           Some v \<Rightarrow> (v, i + 3)
         | None \<Rightarrow> (token, i + 1))
      else
        (let word_lower = str_lower T token in
         case d word_lower of
           Some v \<Rightarrow> (v, i + 1)
         | None \<Rightarrow> (token, i + 1)))"

text \<open>Lines 94 to 136, one iteration.\<close>

definition rewrite_step_with ::
  "'c tables \<Rightarrow> 'c udict \<Rightarrow> 'c list list \<Rightarrow> nat \<Rightarrow> error + ('c list \<times> nat)" where
  "rewrite_step_with T d tokens i =
     (let token = tokens ! i in
      if re_match_word_with T token then
        (case lookup_word_with T d tokens i of
           (translated, j) \<Rightarrow>
             (case preserve_case_with T token translated of
                Inl e \<Rightarrow> Inl e
              | Inr translated' \<Rightarrow> Inr (translated', j)))
      else Inr (token, i + 1))"

text \<open>Lines 92 to 136, the loop.\<close>

partial_function (option) rewrite_loop_with ::
  "'c tables \<Rightarrow> 'c udict \<Rightarrow> 'c list list \<Rightarrow> nat \<Rightarrow> 'c list list
     \<Rightarrow> (error + 'c list list) option" where
  "rewrite_loop_with T d tokens i translated_tokens =
     (if i < length tokens then
        (case rewrite_step_with T d tokens i of
           Inl e \<Rightarrow> Some (Inl e)
         | Inr (translated, j) \<Rightarrow>
             rewrite_loop_with T d tokens j (translated_tokens @ [translated]))
      else Some (Inr translated_tokens))"

definition translate_to_conlang_with ::
  "'c tables \<Rightarrow> 'c list \<Rightarrow> 'c udict \<Rightarrow> (error + 'c list) option" where
  "translate_to_conlang_with T text translation_dict =
     (case rewrite_loop_with T translation_dict
             (tokenize_with (re_word T) (re_space T) text) 0 [] of
        None \<Rightarrow> None
      | Some (Inl e) \<Rightarrow> Some (Inl e)
      | Some (Inr translated_tokens) \<Rightarrow> Some (Inr (concat translated_tokens)))"

subsection \<open>The rewriter without the \<open>"<word> all"\<close> rule\<close>

text \<open>
  The same rewriter with the first branch of the phrase lookup (lines 99 to 106) taken
  out; everything else is as above. It is the comparison point for the reachability of
  that branch.
\<close>

definition lookup_word_no_all ::
  "'c tables \<Rightarrow> 'c udict \<Rightarrow> 'c list list \<Rightarrow> nat \<Rightarrow> 'c list \<times> nat" where
  "lookup_word_no_all T d tokens i =
     (let token = tokens ! i in
      if i + 2 < length tokens \<and> tokens ! (i + 1) = lit T ''-''
         \<and> str_lower T (tokens ! (i + 2)) = lit T ''bye'' then
        (let phrase = lit T ''good-bye'' in
         case d phrase of
           Some v \<Rightarrow> (v, i + 3)
         | None \<Rightarrow> (token, i + 1))
      else
        (let word_lower = str_lower T token in
         case d word_lower of
           Some v \<Rightarrow> (v, i + 1)
         | None \<Rightarrow> (token, i + 1)))"

definition rewrite_step_no_all ::
  "'c tables \<Rightarrow> 'c udict \<Rightarrow> 'c list list \<Rightarrow> nat \<Rightarrow> error + ('c list \<times> nat)" where
  "rewrite_step_no_all T d tokens i =
     (let token = tokens ! i in
      if re_match_word_with T token then
        (case lookup_word_no_all T d tokens i of
           (translated, j) \<Rightarrow>
             (case preserve_case_with T token translated of
                Inl e \<Rightarrow> Inl e
              | Inr translated' \<Rightarrow> Inr (translated', j)))
      else Inr (token, i + 1))"

partial_function (option) rewrite_loop_no_all ::
  "'c tables \<Rightarrow> 'c udict \<Rightarrow> 'c list list \<Rightarrow> nat \<Rightarrow> 'c list list
     \<Rightarrow> (error + 'c list list) option" where
  "rewrite_loop_no_all T d tokens i translated_tokens =
     (if i < length tokens then
        (case rewrite_step_no_all T d tokens i of
           Inl e \<Rightarrow> Some (Inl e)
         | Inr (translated, j) \<Rightarrow>
             rewrite_loop_no_all T d tokens j (translated_tokens @ [translated]))
      else Some (Inr translated_tokens))"

definition translate_no_all ::
  "'c tables \<Rightarrow> 'c list \<Rightarrow> 'c udict \<Rightarrow> (error + 'c list) option" where
  "translate_no_all T text translation_dict =
     (case rewrite_loop_no_all T translation_dict
             (tokenize_with (re_word T) (re_space T) text) 0 [] of
        None \<Rightarrow> None
      | Some (Inl e) \<Rightarrow> Some (Inl e)
      | Some (Inr translated_tokens) \<Rightarrow> Some (Inr (concat translated_tokens)))"

subsection \<open>Predicates on tokens and keys\<close>

text \<open>
  The three token classes, in the order of the pattern's alternatives: a run of word
  characters, one character that is neither word character nor whitespace, a run of
  whitespace.
\<close>

definition is_token_with :: "('c \<Rightarrow> bool) \<Rightarrow> ('c \<Rightarrow> bool) \<Rightarrow> 'c list \<Rightarrow> bool" where
  "is_token_with w s t =
     (case t of
        [] \<Rightarrow> False
      | c # cs \<Rightarrow>
          if w c then list_all w cs
          else if \<not> s c then cs = []
          else list_all s cs)"

text \<open>No two neighbours in the list both satisfy \<open>Q\<close>.\<close>

fun no_adjacent :: "('a \<Rightarrow> bool) \<Rightarrow> 'a list \<Rightarrow> bool" where
  "no_adjacent Q [] = True"
| "no_adjacent Q [t] = True"
| "no_adjacent Q (t # u # ts) = (\<not> (Q t \<and> Q u) \<and> no_adjacent Q (u # ts))"

text \<open>A dictionary key of the shape \<open>"<word> all"\<close>: it ends in a space followed by \<open>all\<close>.\<close>

definition all_key :: "'c tables \<Rightarrow> 'c list \<Rightarrow> bool" where
  "all_key T k = (4 \<le> length k \<and> drop (length k - 4) k = lit T '' all'')"

section \<open>Evaluation lemmas\<close>

lemmas char_defs =
  ascii_lowercase_def ascii_uppercase_def digits_def is_word_char_def is_space_char_def
  char_isupper_def char_islower_def char_upper_def char_lower_def

lemmas string_defs = upper_def lower_def isupper_def

lemmas rewriter_defs =
  re_match_word_def preserve_case_def lookup_word_def rewrite_step_def
  translate_to_conlang_def

section \<open>The tokenizer\<close>

lemma concat_tokenize_with: "concat (tokenize_with w s cs) = cs"
  by (induction w s cs rule: tokenize_with.induct) simp_all

lemma list_all_takeWhile: "list_all P (takeWhile P xs)"
  by (induction xs) simp_all

lemma tokenize_with_is_token: "list_all (is_token_with w s) (tokenize_with w s cs)"
  by (induction w s cs rule: tokenize_with.induct)
     (simp_all add: is_token_with_def list_all_takeWhile)

text \<open>The first token starts with the first character of the text.\<close>

lemma tokenize_with_first: "tokenize_with w s (c # cs) = t # ts \<Longrightarrow> \<exists>r. t = c # r"
  by (auto split: if_splits)

text \<open>After a greedy run of \<open>P\<close> the next token starts with a character outside \<open>P\<close>.\<close>

lemma tokenize_with_after_run:
  assumes "tokenize_with w s (dropWhile P cs) = t # ts"
  shows "\<exists>x r. t = x # r \<and> \<not> P x"
proof (cases "dropWhile P cs")
  case Nil
  with assms show ?thesis by simp
next
  case (Cons x xs)
  then have "dropWhile P cs \<noteq> []" by simp
  from hd_dropWhile[OF this] Cons have "\<not> P x" by simp
  moreover from assms Cons obtain r where "t = x # r"
    using tokenize_with_first by metis
  ultimately show ?thesis by blast
qed

lemma no_adjacent_Cons:
  "no_adjacent Q ts \<Longrightarrow> (\<And>u us. ts = u # us \<Longrightarrow> \<not> (Q t \<and> Q u))
     \<Longrightarrow> no_adjacent Q (t # ts)"
  by (cases ts) simp_all

lemma tokenize_with_no_adjacent_words:
  "no_adjacent (starts_with w) (tokenize_with w s cs)"
proof (induction w s cs rule: tokenize_with.induct)
  case (1 w s)
  then show ?case by simp
next
  case (2 w s c cs)
  show ?case
  proof (cases "w c")
    case True
    with 2 have "no_adjacent (starts_with w) (tokenize_with w s (dropWhile w cs))" by simp
    then have "no_adjacent (starts_with w)
        ((c # takeWhile w cs) # tokenize_with w s (dropWhile w cs))"
    proof (rule no_adjacent_Cons)
      fix u us
      assume "tokenize_with w s (dropWhile w cs) = u # us"
      from tokenize_with_after_run[OF this] have "\<not> starts_with w u"
        by (auto simp: starts_with_def)
      then show "\<not> (starts_with w (c # takeWhile w cs) \<and> starts_with w u)" by simp
    qed
    with True show ?thesis by simp
  next
    case False
    then have nw: "\<And>r. \<not> starts_with w (c # r)" by (simp add: starts_with_def)
    show ?thesis
    proof (cases "s c")
      case True
      with 2 False have "no_adjacent (starts_with w) (tokenize_with w s (dropWhile s cs))"
        by simp
      then have "no_adjacent (starts_with w)
          ((c # takeWhile s cs) # tokenize_with w s (dropWhile s cs))"
        by (rule no_adjacent_Cons) (simp add: nw)
      with True False show ?thesis by simp
    next
      case punct: False
      with 2 False have "no_adjacent (starts_with w) (tokenize_with w s cs)" by simp
      then have "no_adjacent (starts_with w) ([c] # tokenize_with w s cs)"
        by (rule no_adjacent_Cons) (simp add: nw)
      with punct False show ?thesis by simp
    qed
  qed
qed

text \<open>
  A whitespace token is one made by the third alternative: it starts with a character of
  \<open>s\<close> that is not in \<open>w\<close>.
\<close>

lemma tokenize_with_no_adjacent_spaces:
  "no_adjacent (starts_with (\<lambda>c. \<not> w c \<and> s c)) (tokenize_with w s cs)"
proof (induction w s cs rule: tokenize_with.induct)
  case (1 w s)
  then show ?case by simp
next
  case (2 w s c cs)
  let ?sp = "starts_with (\<lambda>c. \<not> w c \<and> s c)"
  show ?case
  proof (cases "w c")
    case True
    then have ns: "\<And>r. \<not> ?sp (c # r)" by (simp add: starts_with_def)
    from True 2 have "no_adjacent ?sp (tokenize_with w s (dropWhile w cs))" by simp
    then have "no_adjacent ?sp ((c # takeWhile w cs) # tokenize_with w s (dropWhile w cs))"
      by (rule no_adjacent_Cons) (simp add: ns)
    with True show ?thesis by simp
  next
    case False
    show ?thesis
    proof (cases "s c")
      case True
      with 2 False have "no_adjacent ?sp (tokenize_with w s (dropWhile s cs))" by simp
      then have "no_adjacent ?sp
          ((c # takeWhile s cs) # tokenize_with w s (dropWhile s cs))"
      proof (rule no_adjacent_Cons)
        fix u us
        assume "tokenize_with w s (dropWhile s cs) = u # us"
        from tokenize_with_after_run[OF this] have "\<not> ?sp u"
          by (auto simp: starts_with_def)
        then show "\<not> (?sp (c # takeWhile s cs) \<and> ?sp u)" by simp
      qed
      with True False show ?thesis by simp
    next
      case punct: False
      then have ns: "\<And>r. \<not> ?sp (c # r)" by (simp add: starts_with_def)
      from punct 2 False have "no_adjacent ?sp (tokenize_with w s cs)" by simp
      then have "no_adjacent ?sp ([c] # tokenize_with w s cs)"
        by (rule no_adjacent_Cons) (simp add: ns)
      with punct False show ?thesis by simp
    qed
  qed
qed

lemma no_adjacent_nth:
  "no_adjacent Q ts \<Longrightarrow> i + 1 < length ts \<Longrightarrow> Q (ts ! i) \<Longrightarrow> \<not> Q (ts ! (i + 1))"
proof (induction Q ts arbitrary: i rule: no_adjacent.induct)
  case (1 Q)
  then show ?case by simp
next
  case (2 Q t)
  then show ?case by simp
next
  case (3 Q t u ts)
  show ?case
  proof (cases i)
    case 0
    with 3 show ?thesis by auto
  next
    case (Suc k)
    with 3 show ?thesis by auto
  qed
qed

text \<open>The tokenizer written out over the ASCII classes is the instance at those classes.\<close>

lemma tokenize_ascii: "tokenize_with is_word_char is_space_char cs = tokenize cs"
  by (induction cs rule: tokenize.induct) simp_all

text \<open>
  C6. For every string over every alphabet, and whatever the classes \<^verbatim>\<open>\w\<close> and \<^verbatim>\<open>\s\<close>
  are (Python's Unicode classes among them), the tokens of the string concatenated in
  order give the string back. Each token is a non-empty run of word characters, a single
  character that is neither word character nor whitespace, or a non-empty run of
  whitespace, and the runs are maximal: no two word tokens and no two whitespace tokens
  are neighbours. The tokenizer over the ASCII classes is the instance at those classes.
\<close>

theorem tokenize_lossless:
  "concat (tokenize_with w s text) = text
   \<and> list_all (is_token_with w s) (tokenize_with w s text)
   \<and> no_adjacent (starts_with w) (tokenize_with w s text)
   \<and> no_adjacent (starts_with (\<lambda>c. \<not> w c \<and> s c)) (tokenize_with w s text)
   \<and> tokenize_with is_word_char is_space_char = tokenize"
  by (simp add: concat_tokenize_with tokenize_with_is_token tokenize_with_no_adjacent_words
      tokenize_with_no_adjacent_spaces tokenize_ascii ext)

section \<open>The rewrite loop\<close>

subsection \<open>The cursor advances, the loop exits\<close>

lemma lookup_word_cursor:
  "snd (lookup_word d tokens i) = i + 1 \<or> snd (lookup_word d tokens i) = i + 2
   \<or> snd (lookup_word d tokens i) = i + 3"
  by (simp add: lookup_word_def Let_def split: option.splits)

lemma rewrite_step_cursor:
  assumes "rewrite_step d tokens i = Inr (t, j)"
  shows "j = i + 1 \<or> j = i + 2 \<or> j = i + 3"
proof (cases "re_match_word (tokens ! i)")
  case False
  with assms show ?thesis by (simp add: rewrite_step_def)
next
  case True
  obtain r k where lw: "lookup_word d tokens i = (r, k)" by (cases "lookup_word d tokens i")
  with assms True have "j = k"
    by (simp add: rewrite_step_def split: sum.splits)
  with lookup_word_cursor[of d tokens i] lw show ?thesis by simp
qed

lemma rewrite_loop_returns: "\<exists>r. rewrite_loop d tokens i acc = Some r"
proof (induction "length tokens - i" arbitrary: i acc rule: less_induct)
  case less
  show ?case
  proof (cases "i < length tokens")
    case False
    then show ?thesis by (subst rewrite_loop.simps) simp
  next
    case True
    show ?thesis
    proof (cases "rewrite_step d tokens i")
      case (Inl e)
      with True show ?thesis by (subst rewrite_loop.simps) simp
    next
      case (Inr p)
      obtain t j where p: "p = (t, j)" by (cases p)
      from rewrite_step_cursor Inr p have "i < j" by fastforce
      with True have "length tokens - j < length tokens - i" by arith
      from less[OF this] obtain r where "rewrite_loop d tokens j (acc @ [t]) = Some r"
        by blast
      with True Inr p show ?thesis by (subst rewrite_loop.simps) simp
    qed
  qed
qed

lemma translate_returns: "\<exists>r. translate_to_conlang text d = Some r"
proof -
  obtain r where "rewrite_loop d (tokenize text) 0 [] = Some r"
    using rewrite_loop_returns by blast
  then show ?thesis by (cases r) (simp_all add: translate_to_conlang_def)
qed

text \<open>
  C10. For every text and every dictionary the rewrite loop exits: the phrase lookup at
  a word token sets the cursor to \<open>i + 1\<close>, \<open>i + 2\<close> or \<open>i + 3\<close>, every iteration
  that appends a token moves the cursor forward by 1, 2 or 3, so from every cursor and
  every accumulated output the loop reaches its end (by returning, or by the exception
  of the case-preservation step), and \<open>translate_to_conlang\<close> yields a result.
\<close>

theorem rewrite_loop_terminates:
  "(snd (lookup_word d tokens i) = i + 1 \<or> snd (lookup_word d tokens i) = i + 2
      \<or> snd (lookup_word d tokens i) = i + 3)
   \<and> (\<forall>t j. rewrite_step d tokens i = Inr (t, j) \<longrightarrow> j = i + 1 \<or> j = i + 2 \<or> j = i + 3)
   \<and> (\<exists>r. rewrite_loop d tokens i acc = Some r)
   \<and> (\<exists>r. translate_to_conlang text d = Some r)"
  using lookup_word_cursor rewrite_step_cursor rewrite_loop_returns translate_returns
  by blast

theorem rewrite_loop_terminates_witness:
  "rewrite_step [''good-bye'' \<mapsto> ''vashtu''] [''Bye'', ''-'', ''bye'', ''!''] 0
     = Inr (''Vashtu'', 3)
   \<and> (3::nat) = 0 + 3
   \<and> (\<exists>r. rewrite_loop [''good-bye'' \<mapsto> ''vashtu''] [''Bye'', ''-'', ''bye'', ''!''] 0 []
          = Some r)
   \<and> (\<exists>r. translate_to_conlang ''Bye-bye!'' [''good-bye'' \<mapsto> ''vashtu''] = Some r)"
proof -
  have step: "rewrite_step [''good-bye'' \<mapsto> ''vashtu''] [''Bye'', ''-'', ''bye'', ''!''] 0
      = Inr (''Vashtu'', 3)"
    by (simp add: rewriter_defs string_defs char_defs)
  note inst = rewrite_loop_terminates[of "[''good-bye'' \<mapsto> ''vashtu'']"
      "[''Bye'', ''-'', ''bye'', ''!'']" 0 "[]" "''Bye-bye!''"]
  from inst step show ?thesis by simp
qed

section \<open>The \<open>"<word> all"\<close> rule\<close>

subsection \<open>The loop over arbitrary tables\<close>

lemma lookup_word_with_cursor:
  "snd (lookup_word_with T d tokens i) = i + 1 \<or> snd (lookup_word_with T d tokens i) = i + 2
   \<or> snd (lookup_word_with T d tokens i) = i + 3"
  by (simp add: lookup_word_with_def Let_def split: option.splits)

lemma rewrite_step_with_cursor:
  assumes "rewrite_step_with T d tokens i = Inr (t, j)"
  shows "j = i + 1 \<or> j = i + 2 \<or> j = i + 3"
proof (cases "re_match_word_with T (tokens ! i)")
  case False
  with assms show ?thesis by (simp add: rewrite_step_with_def)
next
  case True
  obtain r k where lw: "lookup_word_with T d tokens i = (r, k)"
    by (cases "lookup_word_with T d tokens i")
  with assms True have "j = k"
    by (simp add: rewrite_step_with_def split: sum.splits)
  with lookup_word_with_cursor[of T d tokens i] lw show ?thesis by simp
qed

text \<open>Two dictionaries under which every iteration does the same give the same loop.\<close>

lemma rewrite_loop_with_cong:
  assumes steps: "\<And>i. i < length tokens \<Longrightarrow>
      rewrite_step_with T d tokens i = rewrite_step_with T d' tokens i"
  shows "rewrite_loop_with T d tokens i acc = rewrite_loop_with T d' tokens i acc"
proof (induction "length tokens - i" arbitrary: i acc rule: less_induct)
  case less
  show ?case
  proof (cases "i < length tokens")
    case False
    then show ?thesis
      by (subst rewrite_loop_with.simps, subst (2) rewrite_loop_with.simps) simp
  next
    case True
    note step = steps[OF True]
    show ?thesis
    proof (cases "rewrite_step_with T d tokens i")
      case (Inl e)
      with step have "rewrite_step_with T d' tokens i = Inl e" by simp
      with True Inl show ?thesis
        by (subst rewrite_loop_with.simps, subst (2) rewrite_loop_with.simps) simp
    next
      case (Inr p)
      obtain t j where p: "p = (t, j)" by (cases p)
      from rewrite_step_with_cursor Inr p have "i < j" by fastforce
      with True have "length tokens - j < length tokens - i" by arith
      from less[OF this]
      have "rewrite_loop_with T d tokens j (acc @ [t])
          = rewrite_loop_with T d' tokens j (acc @ [t])" .
      moreover from step Inr p have "rewrite_step_with T d' tokens i = Inr (t, j)" by simp
      ultimately show ?thesis using True Inr p
        by (subst rewrite_loop_with.simps, subst (2) rewrite_loop_with.simps) simp
    qed
  qed
qed

text \<open>The same for the loop with and the loop without the rule.\<close>

lemma rewrite_loop_with_no_all:
  assumes steps: "\<And>i. i < length tokens \<Longrightarrow>
      rewrite_step_with T d tokens i = rewrite_step_no_all T d tokens i"
  shows "rewrite_loop_with T d tokens i acc = rewrite_loop_no_all T d tokens i acc"
proof (induction "length tokens - i" arbitrary: i acc rule: less_induct)
  case less
  show ?case
  proof (cases "i < length tokens")
    case False
    then show ?thesis
      by (subst rewrite_loop_with.simps, subst rewrite_loop_no_all.simps) simp
  next
    case True
    note step = steps[OF True]
    show ?thesis
    proof (cases "rewrite_step_with T d tokens i")
      case (Inl e)
      with step have "rewrite_step_no_all T d tokens i = Inl e" by simp
      with True Inl show ?thesis
        by (subst rewrite_loop_with.simps, subst rewrite_loop_no_all.simps) simp
    next
      case (Inr p)
      obtain t j where p: "p = (t, j)" by (cases p)
      from rewrite_step_with_cursor Inr p have "i < j" by fastforce
      with True have "length tokens - j < length tokens - i" by arith
      from less[OF this]
      have "rewrite_loop_with T d tokens j (acc @ [t])
          = rewrite_loop_no_all T d tokens j (acc @ [t])" .
      moreover from step Inr p have "rewrite_step_no_all T d tokens i = Inr (t, j)" by simp
      ultimately show ?thesis using True Inr p
        by (subst rewrite_loop_with.simps, subst rewrite_loop_no_all.simps) simp
    qed
  qed
qed

subsection \<open>The branch is never taken\<close>

lemma tokenize_with_no_adjacent_re_match:
  "no_adjacent (re_match_word_with T) (tokenize_with (re_word T) (re_space T) text)"
proof -
  have "re_match_word_with T = starts_with (re_word T)"
    by (rule ext) (simp add: re_match_word_with_def)
  then show ?thesis by (simp add: tokenize_with_no_adjacent_words)
qed

lemma all_rule_never_matches:
  assumes low: "\<And>t. str_lower T t = lit T ''all'' \<Longrightarrow> re_match_word_with T t"
    and na: "no_adjacent (re_match_word_with T) tokens"
    and i: "i + 1 < length tokens" and w: "re_match_word_with T (tokens ! i)"
  shows "str_lower T (tokens ! (i + 1)) \<noteq> lit T ''all''"
  using no_adjacent_nth[OF na i w] low by blast

lemma lookup_word_eq_no_all:
  assumes low: "\<And>t. str_lower T t = lit T ''all'' \<Longrightarrow> re_match_word_with T t"
    and na: "no_adjacent (re_match_word_with T) tokens"
    and w: "re_match_word_with T (tokens ! i)"
  shows "lookup_word_with T d tokens i = lookup_word_no_all T d tokens i"
proof (cases "i + 2 < length tokens")
  case True
  then have "i + 1 < length tokens" by simp
  from all_rule_never_matches[OF low na this w]
  show ?thesis by (simp add: lookup_word_with_def lookup_word_no_all_def)
next
  case False
  then show ?thesis by (simp add: lookup_word_with_def lookup_word_no_all_def)
qed

lemma rewrite_step_eq_no_all:
  assumes low: "\<And>t. str_lower T t = lit T ''all'' \<Longrightarrow> re_match_word_with T t"
    and na: "no_adjacent (re_match_word_with T) tokens"
  shows "rewrite_step_with T d tokens i = rewrite_step_no_all T d tokens i"
proof (cases "re_match_word_with T (tokens ! i)")
  case True
  from lookup_word_eq_no_all[OF low na True, of d] True show ?thesis
    by (simp add: rewrite_step_with_def rewrite_step_no_all_def)
next
  case False
  then show ?thesis by (simp add: rewrite_step_with_def rewrite_step_no_all_def)
qed

lemma translate_eq_no_all:
  assumes low: "\<And>t. str_lower T t = lit T ''all'' \<Longrightarrow> re_match_word_with T t"
  shows "translate_to_conlang_with T text d = translate_no_all T text d"
proof -
  have "rewrite_loop_with T d (tokenize_with (re_word T) (re_space T) text) 0 []
      = rewrite_loop_no_all T d (tokenize_with (re_word T) (re_space T) text) 0 []"
    by (rule rewrite_loop_with_no_all)
       (rule rewrite_step_eq_no_all[OF low tokenize_with_no_adjacent_re_match])
  then show ?thesis by (simp add: translate_to_conlang_with_def translate_no_all_def)
qed

subsection \<open>The output does not depend on \<open>"<word> all"\<close> keys\<close>

lemma is_token_with_word:
  assumes "is_token_with w s t" "starts_with w t"
  shows "list_all w t"
  using assms by (cases t) (simp_all add: is_token_with_def starts_with_def)

lemma all_key_has_space:
  assumes "all_key T k"
  shows "code_point T CHR '' '' \<in> set k"
proof -
  have "k = take (length k - 4) k @ drop (length k - 4) k" by simp
  with assms have "k = take (length k - 4) k @ lit T '' all''" by (simp add: all_key_def)
  then have "set k = set (take (length k - 4) k @ lit T '' all'')" by simp
  then show ?thesis by (simp add: lit_def)
qed

lemma good_bye_not_all_key:
  assumes "inj (code_point T)"
  shows "\<not> all_key T (lit T ''good-bye'')"
proof
  assume "all_key T (lit T ''good-bye'')"
  then have "code_point T CHR ''-'' = code_point T CHR '' ''"
    by (simp add: all_key_def lit_def)
  with assms have "CHR ''-'' = CHR '' ''" by (rule injD)
  then show False by simp
qed

lemma lookup_word_no_all_dict:
  assumes agree: "\<And>k. \<not> all_key T k \<Longrightarrow> d k = d' k"
    and inj: "inj (code_point T)"
    and nosp: "\<And>t. list_all (re_word T) t \<Longrightarrow> code_point T CHR '' '' \<notin> set (str_lower T t)"
    and tok: "list_all (re_word T) (tokens ! i)"
  shows "lookup_word_no_all T d tokens i = lookup_word_no_all T d' tokens i"
proof -
  have "d (lit T ''good-bye'') = d' (lit T ''good-bye'')"
    using good_bye_not_all_key[OF inj] by (rule agree)
  moreover have "\<not> all_key T (str_lower T (tokens ! i))"
    using nosp[OF tok] all_key_has_space by blast
  then have "d (str_lower T (tokens ! i)) = d' (str_lower T (tokens ! i))" by (rule agree)
  ultimately show ?thesis by (simp add: lookup_word_no_all_def Let_def)
qed

lemma rewrite_step_dict:
  assumes low: "\<And>t. str_lower T t = lit T ''all'' \<Longrightarrow> re_match_word_with T t"
    and agree: "\<And>k. \<not> all_key T k \<Longrightarrow> d k = d' k"
    and inj: "inj (code_point T)"
    and nosp: "\<And>t. list_all (re_word T) t \<Longrightarrow> code_point T CHR '' '' \<notin> set (str_lower T t)"
    and na: "no_adjacent (re_match_word_with T) tokens"
    and toks: "list_all (is_token_with (re_word T) (re_space T)) tokens"
    and i: "i < length tokens"
  shows "rewrite_step_with T d tokens i = rewrite_step_with T d' tokens i"
proof (cases "re_match_word_with T (tokens ! i)")
  case False
  then show ?thesis by (simp add: rewrite_step_with_def)
next
  case True
  from toks i have "is_token_with (re_word T) (re_space T) (tokens ! i)"
    by (simp add: list_all_length)
  moreover from True have "starts_with (re_word T) (tokens ! i)"
    by (simp add: re_match_word_with_def)
  ultimately have w: "list_all (re_word T) (tokens ! i)" by (rule is_token_with_word)
  have "lookup_word_with T d tokens i = lookup_word_no_all T d tokens i"
    using low na True by (rule lookup_word_eq_no_all)
  also have "\<dots> = lookup_word_no_all T d' tokens i"
    using agree inj nosp w by (rule lookup_word_no_all_dict)
  also have "\<dots> = lookup_word_with T d' tokens i"
    using low na True by (rule lookup_word_eq_no_all[symmetric])
  finally show ?thesis by (simp add: rewrite_step_with_def Let_def)
qed

lemma translate_dict:
  assumes low: "\<And>t. str_lower T t = lit T ''all'' \<Longrightarrow> re_match_word_with T t"
    and agree: "\<And>k. \<not> all_key T k \<Longrightarrow> d k = d' k"
    and inj: "inj (code_point T)"
    and nosp: "\<And>t. list_all (re_word T) t \<Longrightarrow> code_point T CHR '' '' \<notin> set (str_lower T t)"
  shows "translate_to_conlang_with T text d = translate_to_conlang_with T text d'"
proof -
  have "rewrite_loop_with T d (tokenize_with (re_word T) (re_space T) text) 0 []
      = rewrite_loop_with T d' (tokenize_with (re_word T) (re_space T) text) 0 []"
    by (rule rewrite_loop_with_cong)
       (rule rewrite_step_dict[OF low agree inj nosp tokenize_with_no_adjacent_re_match
          tokenize_with_is_token])
  then show ?thesis by (simp add: translate_to_conlang_with_def)
qed

subsection \<open>The ASCII tables\<close>

text \<open>
  The program written out over the ASCII tables is the instance of the program over
  arbitrary tables at \<open>ascii_tables\<close>, and the ASCII tables meet the conditions on the
  tables used below.
\<close>

lemma ascii_tables_sel:
  "re_word ascii_tables = is_word_char" "re_space ascii_tables = is_space_char"
  "str_lower ascii_tables = lower" "str_upper ascii_tables = upper"
  "str_isupper ascii_tables = isupper" "code_point ascii_tables = (\<lambda>c. c)"
  by (simp_all add: ascii_tables_def)

lemma lit_ascii: "lit ascii_tables s = s"
  by (simp add: lit_def ascii_tables_sel)

lemma re_match_word_ascii: "re_match_word_with ascii_tables t = re_match_word t"
  by (simp add: re_match_word_with_def starts_with_def re_match_word_def ascii_tables_sel)

lemma upper_not_lower: "char_isupper c \<Longrightarrow> \<not> char_islower c"
  by (auto simp: char_defs)

lemma isupper_single: "isupper [c] = char_isupper c"
  using upper_not_lower by (auto simp: isupper_def)

lemma preserve_case_ascii: "preserve_case_with ascii_tables t r = preserve_case t r"
  unfolding preserve_case_with_def preserve_case_def ascii_tables_sel isupper_single
  by (rule refl)

lemma lookup_word_ascii: "lookup_word_with ascii_tables d tokens i = lookup_word d tokens i"
  unfolding lookup_word_with_def lookup_word_def ascii_tables_sel lit_ascii
  by (rule refl)

lemma rewrite_step_ascii: "rewrite_step_with ascii_tables d tokens i = rewrite_step d tokens i"
  unfolding rewrite_step_with_def rewrite_step_def re_match_word_ascii lookup_word_ascii
    preserve_case_ascii
  by (rule refl)

lemma rewrite_loop_ascii:
  "rewrite_loop_with ascii_tables d tokens i acc = rewrite_loop d tokens i acc"
proof (induction "length tokens - i" arbitrary: i acc rule: less_induct)
  case less
  show ?case
  proof (cases "i < length tokens")
    case False
    then show ?thesis
      by (subst rewrite_loop_with.simps, subst rewrite_loop.simps) simp
  next
    case True
    show ?thesis
    proof (cases "rewrite_step d tokens i")
      case (Inl e)
      with True show ?thesis
        by (subst rewrite_loop_with.simps, subst rewrite_loop.simps)
           (simp add: rewrite_step_ascii)
    next
      case (Inr p)
      obtain t j where p: "p = (t, j)" by (cases p)
      from rewrite_step_cursor Inr p have "i < j" by fastforce
      with True have "length tokens - j < length tokens - i" by arith
      from less[OF this]
      have "rewrite_loop_with ascii_tables d tokens j (acc @ [t])
          = rewrite_loop d tokens j (acc @ [t])" .
      with True Inr p show ?thesis
        by (subst rewrite_loop_with.simps, subst rewrite_loop.simps)
           (simp add: rewrite_step_ascii)
    qed
  qed
qed

lemma tokenize_ascii_tables:
  "tokenize_with (re_word ascii_tables) (re_space ascii_tables) text = tokenize text"
  by (simp add: ascii_tables_sel tokenize_ascii)

lemma translate_ascii:
  "translate_to_conlang_with ascii_tables text d = translate_to_conlang text d"
  by (simp add: translate_to_conlang_with_def translate_to_conlang_def rewrite_loop_ascii
      tokenize_ascii_tables)

lemma char_lower_a: "char_lower c = CHR ''a'' \<Longrightarrow> is_word_char c"
  by (auto simp: char_defs split: if_splits)

lemma lower_all_is_word: "lower t = ''all'' \<Longrightarrow> re_match_word t"
  by (cases t) (auto simp: lower_def re_match_word_def char_lower_a)

lemma char_lower_space: "is_word_char c \<Longrightarrow> char_lower c \<noteq> CHR '' ''"
  by (auto simp: char_defs split: if_splits)

lemma ascii_lower_all:
  "str_lower ascii_tables t = lit ascii_tables ''all'' \<Longrightarrow> re_match_word_with ascii_tables t"
  using lower_all_is_word by (simp add: lit_ascii re_match_word_ascii ascii_tables_sel)

lemma ascii_lower_no_space:
  assumes "list_all (re_word ascii_tables) t"
  shows "code_point ascii_tables CHR '' '' \<notin> set (str_lower ascii_tables t)"
proof
  assume "code_point ascii_tables CHR '' '' \<in> set (str_lower ascii_tables t)"
  then obtain c where "c \<in> set t" "char_lower c = CHR '' ''"
    by (auto simp: ascii_tables_sel lower_def)
  moreover from assms have "\<forall>c\<in>set t. is_word_char c"
    by (simp add: ascii_tables_sel list_all_iff)
  ultimately show False using char_lower_space by blast
qed

lemma ascii_code_point_inj: "inj (code_point ascii_tables)"
  by (simp add: ascii_tables_sel inj_on_def)

subsection \<open>The rule is dead\<close>

text \<open>
  C5. For every text and every dictionary, over every alphabet and whatever the tables of
  the runtime are: a word token of the tokenizer's output is never followed by another
  word token. If, as in Python, a string that lowercases to \<open>all\<close> starts with a word
  character (there only \<open>A\<close>, \<open>a\<close>, \<open>L\<close> and \<open>l\<close> have an \<open>a\<close> or an \<open>l\<close> in their
  lowercase), then the token after a word token never lowercases to \<open>all\<close>, so the match
  condition of the \<open>"<word> all"\<close> rule never holds, and \<open>translate_to_conlang\<close> is equal to
  the rewriter without that rule. If moreover distinct ASCII characters have distinct
  code points and the lowercase of a run of word characters contains no space, then two
  dictionaries that differ only on keys of the shape \<open>"<word> all"\<close> give the same
  output.
\<close>

theorem all_rule_is_dead:
  "(\<forall>i. i + 1 < length (tokenize_with (re_word T) (re_space T) text)
        \<and> re_match_word_with T (tokenize_with (re_word T) (re_space T) text ! i) \<longrightarrow>
        \<not> re_match_word_with T (tokenize_with (re_word T) (re_space T) text ! (i + 1)))
   \<and> ((\<forall>t. str_lower T t = lit T ''all'' \<longrightarrow> re_match_word_with T t) \<longrightarrow>
        (\<forall>i. i + 1 < length (tokenize_with (re_word T) (re_space T) text)
            \<and> re_match_word_with T (tokenize_with (re_word T) (re_space T) text ! i) \<longrightarrow>
            str_lower T (tokenize_with (re_word T) (re_space T) text ! (i + 1))
              \<noteq> lit T ''all'')
        \<and> translate_to_conlang_with T text d = translate_no_all T text d
        \<and> (inj (code_point T)
            \<and> (\<forall>t. list_all (re_word T) t \<longrightarrow>
                  code_point T CHR '' '' \<notin> set (str_lower T t))
            \<and> (\<forall>k. \<not> all_key T k \<longrightarrow> d k = d' k) \<longrightarrow>
            translate_to_conlang_with T text d = translate_to_conlang_with T text d'))"
proof (intro conjI allI impI)
  fix i
  assume "i + 1 < length (tokenize_with (re_word T) (re_space T) text)
        \<and> re_match_word_with T (tokenize_with (re_word T) (re_space T) text ! i)"
  then show "\<not> re_match_word_with T (tokenize_with (re_word T) (re_space T) text ! (i + 1))"
    using no_adjacent_nth[OF tokenize_with_no_adjacent_re_match] by blast
next
  fix i
  assume low: "\<forall>t. str_lower T t = lit T ''all'' \<longrightarrow> re_match_word_with T t"
    and "i + 1 < length (tokenize_with (re_word T) (re_space T) text)
        \<and> re_match_word_with T (tokenize_with (re_word T) (re_space T) text ! i)"
  then show "str_lower T (tokenize_with (re_word T) (re_space T) text ! (i + 1))
      \<noteq> lit T ''all''"
    using all_rule_never_matches[OF _ tokenize_with_no_adjacent_re_match] by blast
next
  assume "\<forall>t. str_lower T t = lit T ''all'' \<longrightarrow> re_match_word_with T t"
  then show "translate_to_conlang_with T text d = translate_no_all T text d"
    by (intro translate_eq_no_all) simp
next
  assume "\<forall>t. str_lower T t = lit T ''all'' \<longrightarrow> re_match_word_with T t"
    and "inj (code_point T)
       \<and> (\<forall>t. list_all (re_word T) t \<longrightarrow> code_point T CHR '' '' \<notin> set (str_lower T t))
       \<and> (\<forall>k. \<not> all_key T k \<longrightarrow> d k = d' k)"
  then show "translate_to_conlang_with T text d = translate_to_conlang_with T text d'"
    by (intro translate_dict) simp_all
qed

theorem all_rule_is_dead_witness:
  "inj (code_point ascii_tables)
   \<and> all_key ascii_tables ''you all''
   \<and> 0 + 1 < length (tokenize ''you all'') \<and> re_match_word (tokenize ''you all'' ! 0)
   \<and> \<not> re_match_word (tokenize ''you all'' ! (0 + 1))
   \<and> lower (tokenize ''you all'' ! (0 + 1)) \<noteq> ''all''
   \<and> translate_to_conlang ''you all'' [''you all'' \<mapsto> ''yall-conlang'', ''you'' \<mapsto> ''yu'']
       = translate_no_all ascii_tables ''you all''
           [''you all'' \<mapsto> ''yall-conlang'', ''you'' \<mapsto> ''yu'']
   \<and> translate_to_conlang ''you all'' [''you all'' \<mapsto> ''yall-conlang'', ''you'' \<mapsto> ''yu'']
       = translate_to_conlang ''you all'' [''you'' \<mapsto> ''yu'']"
proof -
  have h1: "\<forall>t. str_lower ascii_tables t = lit ascii_tables ''all''
      \<longrightarrow> re_match_word_with ascii_tables t"
    using ascii_lower_all by blast
  have h2: "\<forall>t. list_all (re_word ascii_tables) t
      \<longrightarrow> code_point ascii_tables CHR '' '' \<notin> set (str_lower ascii_tables t)"
    using ascii_lower_no_space by blast
  have h3: "inj (code_point ascii_tables)" by (rule ascii_code_point_inj)
  have k: "all_key ascii_tables ''you all''" by (simp add: all_key_def lit_ascii)
  have h4: "\<forall>k. \<not> all_key ascii_tables k \<longrightarrow>
       [''you all'' \<mapsto> ''yall-conlang'', ''you'' \<mapsto> ''yu''] k = [''you'' \<mapsto> ''yu''] k"
    using k by auto
  have t: "0 + 1 < length (tokenize ''you all'') \<and> re_match_word (tokenize ''you all'' ! 0)"
    by (simp add: re_match_word_def char_defs)
  have lw: "str_lower ascii_tables = lower" by (simp add: ascii_tables_sel)
  note inst = all_rule_is_dead[of ascii_tables "''you all''"
      "[''you all'' \<mapsto> ''yall-conlang'', ''you'' \<mapsto> ''yu'']" "[''you'' \<mapsto> ''yu'']"]
  from inst h1 h2 h3 h4 t k show ?thesis
    unfolding tokenize_ascii_tables re_match_word_ascii translate_ascii lit_ascii lw
    by blast
qed

section \<open>Phrase lookup and case preservation\<close>

subsection \<open>The \<open>good-bye\<close> pattern without the \<open>good-bye\<close> key\<close>

text \<open>
  C3, as stated, at the dictionary \<open>{"good": "bon"}\<close> and the text \<open>"good-bye"\<close>: the
  output is \<open>"good-bye"\<close>, not \<open>"bon-bye"\<close>. The branch at lines 112 to 114 keeps the
  token and does not look it up.
\<close>

theorem good_bye_key_absent_counterexample:
  "translate_to_conlang ''good-bye'' [''good'' \<mapsto> ''bon''] = Some (Inr ''good-bye'')
   \<and> translate_to_conlang ''good-bye'' [''good'' \<mapsto> ''bon''] \<noteq> Some (Inr ''bon-bye'')"
  by (simp add: rewriter_defs string_defs char_defs rewrite_loop.simps)

text \<open>
  C3, amended. When token \<open>i\<close> is a word, token \<open>i+1\<close> is \<open>"-"\<close>, token \<open>i+2\<close>
  lowercases to \<open>"bye"\<close> and the key \<open>"good-bye"\<close> is absent, token \<open>i\<close> is not looked up
  in the dictionary: the replacement is the token's own text, handed to the
  case-preservation step, and the cursor advances by 1, whatever the dictionary holds
  for the lowercased token.
\<close>

theorem good_bye_key_absent_keeps_token:
  assumes "i + 2 < length tokens" and "re_match_word (tokens ! i)"
    and "tokens ! (i + 1) = ''-''" and "lower (tokens ! (i + 2)) = ''bye''"
    and "d ''good-bye'' = None"
  shows "lookup_word d tokens i = (tokens ! i, i + 1)
     \<and> rewrite_step d tokens i =
         (case preserve_case (tokens ! i) (tokens ! i) of
            Inl e \<Rightarrow> Inl e
          | Inr translated \<Rightarrow> Inr (translated, i + 1))"
proof -
  have "lower ''-'' \<noteq> ''all''" by (simp add: lower_def)
  with assms have lw: "lookup_word d tokens i = (tokens ! i, i + 1)"
    by (simp add: lookup_word_def)
  with assms(2) show ?thesis unfolding rewrite_step_def Let_def by (simp split: sum.splits)
qed

theorem good_bye_key_absent_keeps_token_witness:
  "0 + 2 < length (tokenize ''good-bye'') \<and> re_match_word (tokenize ''good-bye'' ! 0)
   \<and> tokenize ''good-bye'' ! (0 + 1) = ''-''
   \<and> lower (tokenize ''good-bye'' ! (0 + 2)) = ''bye''
   \<and> [''good'' \<mapsto> ''bon''] ''good-bye'' = None
   \<and> [''good'' \<mapsto> ''bon''] (lower (tokenize ''good-bye'' ! 0)) = Some ''bon''
   \<and> lookup_word [''good'' \<mapsto> ''bon''] (tokenize ''good-bye'') 0 = (''good'', 0 + 1)
   \<and> rewrite_step [''good'' \<mapsto> ''bon''] (tokenize ''good-bye'') 0 = Inr (''good'', 0 + 1)"
proof -
  have tk: "tokenize ''good-bye'' = [''good'', ''-'', ''bye'']" by code_simp
  have h1: "0 + 2 < length (tokenize ''good-bye'')" unfolding tk by simp
  have h2: "re_match_word (tokenize ''good-bye'' ! 0)"
    unfolding tk by (simp add: re_match_word_def char_defs)
  have h3: "tokenize ''good-bye'' ! (0 + 1) = ''-''" unfolding tk by simp
  have h4: "lower (tokenize ''good-bye'' ! (0 + 2)) = ''bye''"
    unfolding tk by (simp add: lower_def char_defs)
  have h5: "[''good'' \<mapsto> ''bon''] ''good-bye'' = None" by simp
  have h6: "[''good'' \<mapsto> ''bon''] (lower (tokenize ''good-bye'' ! 0)) = Some ''bon''"
    unfolding tk by (simp add: lower_def char_defs)
  have pc: "preserve_case ''good'' ''good'' = Inr ''good''"
    by (simp add: preserve_case_def string_defs char_defs)
  from good_bye_key_absent_keeps_token[where i = 0 and tokens = "tokenize ''good-bye''"
      and d = "[''good'' \<mapsto> ''bon'']", OF h1 h2 h3 h4 h5] pc
  have "lookup_word [''good'' \<mapsto> ''bon''] (tokenize ''good-bye'') 0 = (''good'', 0 + 1)
     \<and> rewrite_step [''good'' \<mapsto> ''bon''] (tokenize ''good-bye'') 0 = Inr (''good'', 0 + 1)"
    unfolding tk by simp
  with h1 h2 h3 h4 h5 h6 show ?thesis by blast
qed

subsection \<open>Empty replacements\<close>

text \<open>
  With no empty replacement in the dictionary the case-preservation step never indexes
  an empty string, and the rewriter returns a string.
\<close>

lemma re_match_word_nonempty: "re_match_word t \<Longrightarrow> t \<noteq> []"
  by (auto simp: re_match_word_def)

lemma preserve_case_returns:
  assumes "token \<noteq> []" "translated \<noteq> []"
  shows "\<exists>s. preserve_case token translated = Inr s"
  using assms by (cases token; cases translated) (simp_all add: preserve_case_def)

lemma lookup_word_nonempty:
  assumes "[] \<notin> ran d" "tokens ! i \<noteq> []"
  shows "fst (lookup_word d tokens i) \<noteq> []"
  using assms by (auto simp: lookup_word_def Let_def ran_def split: option.splits)

lemma rewrite_step_returns:
  assumes "[] \<notin> ran d"
  shows "\<exists>p. rewrite_step d tokens i = Inr p"
proof (cases "re_match_word (tokens ! i)")
  case False
  then show ?thesis by (simp add: rewrite_step_def)
next
  case True
  then have ne: "tokens ! i \<noteq> []" by (rule re_match_word_nonempty)
  obtain r k where lw: "lookup_word d tokens i = (r, k)" by (cases "lookup_word d tokens i")
  with lookup_word_nonempty[OF assms ne] have "r \<noteq> []" by simp
  from preserve_case_returns[OF ne this] obtain s where "preserve_case (tokens ! i) r = Inr s"
    by blast
  with True lw show ?thesis by (simp add: rewrite_step_def)
qed

lemma rewrite_loop_returns_tokens:
  assumes "[] \<notin> ran d"
  shows "\<exists>ts. rewrite_loop d tokens i acc = Some (Inr ts)"
proof (induction "length tokens - i" arbitrary: i acc rule: less_induct)
  case less
  show ?case
  proof (cases "i < length tokens")
    case False
    then show ?thesis by (subst rewrite_loop.simps) simp
  next
    case True
    from rewrite_step_returns[OF assms] obtain t j where
      step: "rewrite_step d tokens i = Inr (t, j)" by fastforce
    from rewrite_step_cursor[OF step] have "i < j" by auto
    with True have "length tokens - j < length tokens - i" by arith
    from less[OF this] obtain ts where "rewrite_loop d tokens j (acc @ [t]) = Some (Inr ts)"
      by blast
    with True step show ?thesis by (subst rewrite_loop.simps) simp
  qed
qed

lemma translate_returns_string:
  assumes "[] \<notin> ran d"
  shows "\<exists>s. translate_to_conlang text d = Some (Inr s)"
proof -
  from rewrite_loop_returns_tokens[OF assms] obtain ts where
    "rewrite_loop d (tokenize text) 0 [] = Some (Inr ts)" by blast
  then show ?thesis by (simp add: translate_to_conlang_def)
qed

text \<open>
  C2. The claim is that \<open>translate_to_conlang\<close> returns a string for every text and every
  dictionary, empty replacements included. At the dictionary \<open>{"hello": ""}\<close> the text
  \<open>"Hello"\<close> reaches \<^verbatim>\<open>translated[0]\<close> at line 128 with an empty \<^verbatim>\<open>translated\<close>: the
  result is the \<^verbatim>\<open>IndexError\<close>. The two sibling branches handle the same replacement:
  \<open>"HELLO"\<close> and \<open>"hello"\<close> give the empty string.
\<close>

theorem empty_replacement_raises:
  "translate_to_conlang ''Hello'' [''hello'' \<mapsto> []] = Some (Inl IndexError)
   \<and> translate_to_conlang ''HELLO'' [''hello'' \<mapsto> []] = Some (Inr [])
   \<and> translate_to_conlang ''hello'' [''hello'' \<mapsto> []] = Some (Inr [])"
  by (simp add: rewriter_defs string_defs char_defs rewrite_loop.simps)

subsection \<open>Unmatched words\<close>

text \<open>
  C4. The claim is that a word token with no dictionary entry and outside any matched
  phrase is emitted exactly as it stands, mixed case included. With the empty dictionary
  the text \<open>"HeLLo"\<close> comes out as \<open>"Hello"\<close>: the case-preservation step at lines 127
  and 128 is applied to the untranslated token as well and lowercases its tail.
\<close>

theorem unmatched_mixed_case_rewritten:
  "translate_to_conlang ''HeLLo'' Map.empty = Some (Inr ''Hello'')"
  by (simp add: rewriter_defs string_defs char_defs rewrite_loop.simps)

section \<open>Worked examples\<close>

text \<open>
  C1. The claim is that with \<open>{"you all": "yall-conlang", "you": "yu"}\<close> the text
  \<open>"you all"\<close> gives \<open>"yall-conlang"\<close> and the text \<open>"you"\<close> gives \<open>"yu"\<close>. The code
  gives \<open>"yu all"\<close> for the first, since the token after \<open>you\<close> is the space, and \<open>"yu"\<close>
  for the second.
\<close>

theorem you_all_phrase_not_matched:
  "translate_to_conlang ''you all'' [''you all'' \<mapsto> ''yall-conlang'', ''you'' \<mapsto> ''yu'']
     = Some (Inr ''yu all'')
   \<and> translate_to_conlang ''you'' [''you all'' \<mapsto> ''yall-conlang'', ''you'' \<mapsto> ''yu'']
     = Some (Inr ''yu'')"
  by (simp add: rewriter_defs string_defs char_defs rewrite_loop.simps)

text \<open>
  C7. With the dictionary \<open>{"good-bye": "vashtu"}\<close> the text \<open>"Good-bye"\<close> gives
  \<open>"Vashtu"\<close>: the tokens \<open>Good\<close>, \<open>-\<close>, \<open>bye\<close> are consumed by one iteration, which moves
  the cursor from 0 to 3, and the case pattern comes from \<open>Good\<close>.
\<close>

theorem good_bye_phrase_example:
  "translate_to_conlang ''Good-bye'' [''good-bye'' \<mapsto> ''vashtu''] = Some (Inr ''Vashtu'')
   \<and> tokenize ''Good-bye'' = [''Good'', ''-'', ''bye'']
   \<and> rewrite_step [''good-bye'' \<mapsto> ''vashtu''] [''Good'', ''-'', ''bye''] 0
       = Inr (''Vashtu'', 3)
   \<and> preserve_case ''Good'' ''vashtu'' = Inr ''Vashtu''"
  by (simp add: rewriter_defs string_defs char_defs rewrite_loop.simps)

text \<open>
  C8. With the dictionary \<open>{"you": "yu"}\<close> the text \<open>"you all"\<close> gives \<open>"yu all"\<close>:
  \<open>you\<close> is replaced through the single-word lookup and \<open>all\<close>, which has no entry, is
  passed through.
\<close>

theorem you_all_fallback_example:
  "translate_to_conlang ''you all'' [''you'' \<mapsto> ''yu''] = Some (Inr ''yu all'')"
  by (simp add: rewriter_defs string_defs char_defs rewrite_loop.simps)

text \<open>
  C9. With the dictionary \<open>{"hello": "zorg"}\<close> the translation of \<open>"HELLO"\<close> is
  \<open>"ZORG"\<close>, that of \<open>"Hello"\<close> is \<open>"Zorg"\<close> and that of \<open>"hello"\<close> is \<open>"zorg"\<close>.
\<close>

theorem case_preservation_examples:
  "translate_to_conlang ''HELLO'' [''hello'' \<mapsto> ''zorg''] = Some (Inr ''ZORG'')
   \<and> translate_to_conlang ''Hello'' [''hello'' \<mapsto> ''zorg''] = Some (Inr ''Zorg'')
   \<and> translate_to_conlang ''hello'' [''hello'' \<mapsto> ''zorg''] = Some (Inr ''zorg'')"
  by (simp add: rewriter_defs string_defs char_defs rewrite_loop.simps)

end
